theory Spec2Isabelle
  imports Complex_Main "HOL-Library.Log_Nat"
begin

section \<open>Values and external primitives\<close>

text \<open>
  The Merkle tree of \<^verbatim>\<open>main.ts\<close> is built over a \<^verbatim>\<open>ClientList\<close>, an array of
  JavaScript values. The runtime check of \<^verbatim>\<open>hashList\<close> inspects those values with
  \<^verbatim>\<open>typeof\<close>, \<^verbatim>\<open>Array.isArray\<close> and \<^verbatim>\<open>Object.keys\<close>, so the values are modelled as
  a datatype of JSON-shaped JavaScript values. The type parameter \<open>'n\<close> stands for the
  number type (IEEE doubles in the source); nothing in the code computes with numbers.
  An object is the list of its own enumerable properties in the order \<^verbatim>\<open>Object.keys\<close>
  reports them.
\<close>

datatype 'n jsval =
    JUndefined
  | JNull
  | JBool bool
  | JNum 'n
  | JStr string
  | JArr "'n jsval list"
  | JObj "(string \<times> 'n jsval) list"

text \<open>
  Every \<^verbatim>\<open>throw\<close> of the source is a value: \<open>Error msg\<close> is \<^verbatim>\<open>new Error(msg)\<close>,
  \<open>TypeError\<close> is the built-in exception raised by \<^verbatim>\<open>Object.keys(null)\<close>, by reading a
  property of \<^verbatim>\<open>undefined\<close> and by \<^verbatim>\<open>JSON.stringify\<close> on a circular structure.
\<close>

datatype error = Error string | TypeError

type_synonym DigestAlgorithm = string

text \<open>
  Two primitives come from outside the repository and are parameters of every function
  that uses them:
  \<^item> \<open>D alg s\<close> is \<^verbatim>\<open>toHashString(await crypto.subtle.digest(alg, new TextEncoder().encode(s)))\<close>;
  \<^item> \<open>S v\<close> is \<^verbatim>\<open>JSON.stringify(v)\<close>, with \<open>None\<close> when it throws.
\<close>

type_synonym digest = "DigestAlgorithm \<Rightarrow> string \<Rightarrow> string"
type_synonym 'n stringify = "'n jsval \<Rightarrow> string option"

definition default_algorithm :: DigestAlgorithm where
  "default_algorithm = ''SHA-256''"

fun typeof :: "'n jsval \<Rightarrow> string" where
  "typeof JUndefined = ''undefined''"
| "typeof JNull = ''object''"
| "typeof (JBool b) = ''boolean''"
| "typeof (JNum n) = ''number''"
| "typeof (JStr s) = ''string''"
| "typeof (JArr xs) = ''object''"
| "typeof (JObj kvs) = ''object''"

fun Array_isArray :: "'n jsval \<Rightarrow> bool" where
  "Array_isArray (JArr xs) = True"
| "Array_isArray v = False"

function show_nat :: "nat \<Rightarrow> string" where
  "show_nat n =
     (if n < 10 then [char_of (48 + n)]
      else show_nat (n div 10) @ [char_of (48 + n mod 10)])"
  by pat_completeness auto
termination
  by (relation "measure id") auto

declare show_nat.simps [simp del]

text \<open>
  \<^verbatim>\<open>Object.keys\<close>: throws on \<^verbatim>\<open>null\<close> and \<^verbatim>\<open>undefined\<close>, is empty on the other
  primitives except strings, and lists the indices of a string or an array.
\<close>

fun Object_keys :: "'n jsval \<Rightarrow> error + string list" where
  "Object_keys JUndefined = Inl TypeError"
| "Object_keys JNull = Inl TypeError"
| "Object_keys (JBool b) = Inr []"
| "Object_keys (JNum n) = Inr []"
| "Object_keys (JStr s) = Inr (map show_nat [0..<length s])"
| "Object_keys (JArr xs) = Inr (map show_nat [0..<length xs])"
| "Object_keys (JObj kvs) = Inr (map fst kvs)"

section \<open>hashList\<close>

text \<open>The body of the \<^verbatim>\<open>forEach\<close> callback: the runtime check of one entry.\<close>

definition check_client :: "'n jsval \<Rightarrow> error + unit" where
  "check_client client =
     (if typeof client \<noteq> ''object'' \<or> Array_isArray client
      then Inl (Error ''Invalid format for ClientList'')
      else (case Object_keys client of
              Inl e \<Rightarrow> Inl e
            | Inr ks \<Rightarrow>
                if length ks \<noteq> 1 then Inl (Error ''Invalid format for ClientList'')
                else Inr ()))"

fun check_format :: "'n jsval list \<Rightarrow> error + unit" where
  "check_format [] = Inr ()"
| "check_format (client # rest) =
     (case check_client client of
        Inl e \<Rightarrow> Inl e
      | Inr u \<Rightarrow> check_format rest)"

text \<open>The \<^verbatim>\<open>for await\<close> loop of \<^verbatim>\<open>hashList\<close>, with \<open>hashedList\<close> as the accumulator.\<close>

fun hash_loop ::
  "digest \<Rightarrow> 'n stringify \<Rightarrow> DigestAlgorithm \<Rightarrow> 'n jsval list \<Rightarrow> string list
     \<Rightarrow> error + string list" where
  "hash_loop D S algorithm [] hashedList = Inr hashedList"
| "hash_loop D S algorithm (item # rest) hashedList =
     (case S item of
        None \<Rightarrow> Inl TypeError
      | Some s \<Rightarrow> hash_loop D S algorithm rest (hashedList @ [D algorithm s]))"

definition hashList ::
  "digest \<Rightarrow> 'n stringify \<Rightarrow> 'n jsval list \<Rightarrow> DigestAlgorithm \<Rightarrow> error + string list" where
  "hashList D S inputList algorithm =
     (case check_format inputList of
        Inl e \<Rightarrow> Inl e
      | Inr u \<Rightarrow> hash_loop D S algorithm inputList [])"

section \<open>computeMerkleTree\<close>

text \<open>The inner \<^verbatim>\<open>for (let i = 0; i < hashes.length; i += 2)\<close> loop.\<close>

function pair_loop ::
  "digest \<Rightarrow> DigestAlgorithm \<Rightarrow> string list \<Rightarrow> nat \<Rightarrow> string list \<Rightarrow> string list" where
  "pair_loop D algorithm hashes i nextLevel =
     (if i < length hashes then
        (let leftHash = hashes ! i;
             rightHash = (if i + 1 < length hashes then hashes ! (i + 1) else leftHash)
         in pair_loop D algorithm hashes (i + 2)
              (nextLevel @ [D algorithm (leftHash @ rightHash)]))
      else nextLevel)"
  by pat_completeness auto
termination
  by (relation "measure (\<lambda>(D, algorithm, hashes, i, nextLevel). length hashes - i)") auto

declare pair_loop.simps [simp del]

text \<open>One iteration of the \<^verbatim>\<open>while\<close> body: the pairing loop, then the padding step.\<close>

definition next_level :: "digest \<Rightarrow> DigestAlgorithm \<Rightarrow> string list \<Rightarrow> string list" where
  "next_level D algorithm hashes =
     (let nextLevel = pair_loop D algorithm hashes 0 []
      in if length nextLevel mod 2 \<noteq> 0 \<and> length hashes > 2
         then nextLevel @ [nextLevel ! (length nextLevel - 1)]
         else nextLevel)"

lemma length_pair_loop:
  "length (pair_loop D algorithm hashes i nextLevel)
     = length nextLevel + (length hashes - i + 1) div 2"
proof (induction D algorithm hashes i nextLevel rule: pair_loop.induct)
  case (1 D algorithm hashes i nextLevel)
  show ?case
  proof (cases "i < length hashes")
    case True
    then show ?thesis
      using "1.IH" [OF True refl refl]
      by (subst pair_loop.simps) (simp add: Let_def, arith)
  next
    case False
    then show ?thesis
      by (subst pair_loop.simps) simp
  qed
qed

lemma length_next_level:
  "length (next_level D algorithm hashes) =
     (let m = (length hashes + 1) div 2
      in if odd m \<and> length hashes > 2 then m + 1 else m)"
  by (simp add: next_level_def Let_def length_pair_loop odd_iff_mod_2_eq_one)

lemma next_level_shorter:
  assumes "1 < length hashes"
  shows "length (next_level D algorithm hashes) < length hashes"
proof -
  define n where "n = length hashes"
  have "1 < n"
    using assms by (simp add: n_def)
  then have "(if odd ((n + 1) div 2) \<and> n > 2 then (n + 1) div 2 + 1 else (n + 1) div 2) < n"
    by presburger
  then show ?thesis
    unfolding length_next_level Let_def n_def .
qed

text \<open>The \<^verbatim>\<open>while (hashes.length > 1)\<close> loop, with \<open>fullTree\<close> as the accumulator.\<close>

function level_loop ::
  "digest \<Rightarrow> DigestAlgorithm \<Rightarrow> string list \<Rightarrow> string list list \<Rightarrow> string list list" where
  "level_loop D algorithm hashes fullTree =
     (if length hashes > 1 then
        (let nextLevel = next_level D algorithm hashes
         in level_loop D algorithm nextLevel (fullTree @ [nextLevel]))
      else fullTree)"
  by pat_completeness auto
termination
  by (relation "measure (\<lambda>(D, algorithm, hashes, fullTree). length hashes)")
     (auto simp: next_level_shorter)

declare level_loop.simps [simp del]

text \<open>
  \<^verbatim>\<open>computeMerkleTree\<close> calls \<^verbatim>\<open>hashList(inputList)\<close> without its own \<open>algorithm\<close>, so
  the leaves are always hashed with the default algorithm.
\<close>

definition computeMerkleTree ::
  "digest \<Rightarrow> 'n stringify \<Rightarrow> 'n jsval list \<Rightarrow> DigestAlgorithm \<Rightarrow> error + string list list" where
  "computeMerkleTree D S inputList algorithm =
     (if length inputList = 0 then Inl (Error ''Empty array of clients.'')
      else (case hashList D S inputList default_algorithm of
              Inl e \<Rightarrow> Inl e
            | Inr hashes \<Rightarrow>
                if length hashes = 0 then Inl (Error ''Empty array of hashes.'')
                else Inr (level_loop D algorithm hashes [hashes])))"

section \<open>generateMerkleProofWithOrder\<close>

record Path =
  hash :: string
  isRight :: bool

text \<open>\<^verbatim>\<open>Array.prototype.indexOf\<close>: the first index holding the value, or \<open>-1\<close>.\<close>

fun indexOf_from :: "'a list \<Rightarrow> 'a \<Rightarrow> int \<Rightarrow> int" where
  "indexOf_from [] x k = - 1"
| "indexOf_from (y # ys) x k = (if y = x then k else indexOf_from ys x (k + 1))"

definition indexOf :: "'a list \<Rightarrow> 'a \<Rightarrow> int" where
  "indexOf xs x = indexOf_from xs x 0"

text \<open>
  The \<^verbatim>\<open>for (let i = 0; i < merkleTree.length - 1; i++)\<close> loop. \<open>index\<close> is a
  JavaScript number, an \<open>int\<close> here, so that the test \<^verbatim>\<open>siblingIndex >= 0\<close> is
  written out; it is never negative, so \<^verbatim>\<open>%\<close> and \<^verbatim>\<open>Math.floor(index / 2)\<close> are
  \<open>mod\<close> and \<open>div\<close>.
\<close>

function proof_loop :: "string list list \<Rightarrow> nat \<Rightarrow> int \<Rightarrow> Path list \<Rightarrow> Path list" where
  "proof_loop merkleTree i index proof =
     (if int i < int (length merkleTree) - 1 then
        (let isIndexEven = (index mod 2 = 0);
             siblingIndex = (if isIndexEven then index + 1 else index - 1);
             proof' =
               (if siblingIndex \<ge> 0 \<and> siblingIndex < int (length (merkleTree ! i))
                then proof @ [\<lparr>hash = merkleTree ! i ! nat siblingIndex, isRight = isIndexEven\<rparr>]
                else proof)
         in proof_loop merkleTree (i + 1) (index div 2) proof')
      else proof)"
  by pat_completeness auto
termination
  by (relation "measure (\<lambda>(merkleTree, i, index, proof). length merkleTree - i)") auto

declare proof_loop.simps [simp del]

text \<open>
  \<open>Inr None\<close> is the \<^verbatim>\<open>null\<close> result. On an empty tree \<^verbatim>\<open>merkleTree[0]\<close> is
  \<^verbatim>\<open>undefined\<close> and calling \<^verbatim>\<open>indexOf\<close> on it throws a TypeError.
\<close>

definition generateMerkleProofWithOrder ::
  "string \<Rightarrow> string list list \<Rightarrow> error + Path list option" where
  "generateMerkleProofWithOrder leafHash merkleTree =
     (case merkleTree of
        [] \<Rightarrow> Inl TypeError
      | level0 # upper \<Rightarrow>
          (let leafIndex = indexOf level0 leafHash
           in if leafIndex = - 1 then Inr None
              else Inr (Some (proof_loop merkleTree 0 leafIndex []))))"

section \<open>generateProofForEveryUser\<close>

text \<open>
  A \<^verbatim>\<open>ClientPath\<close> is an object with the one computed key \<^verbatim>\<open>clientID[0]\<close>: a pair of
  the key and the proof. An absent \<^verbatim>\<open>clientID[0]\<close> is \<^verbatim>\<open>undefined\<close>, which both the
  template literal and the computed key turn into the string \<^verbatim>\<open>undefined\<close>.
\<close>

type_synonym ClientPath = "string \<times> Path list"

definition first_key :: "string list \<Rightarrow> string" where
  "first_key clientID = (case clientID of [] \<Rightarrow> ''undefined'' | k # ks \<Rightarrow> k)"

text \<open>
  The call \<^verbatim>\<open>generateMerkleProofWithOrder(merkleTree[0][i], merkleTree)\<close>. Reading
  \<^verbatim>\<open>merkleTree[0][i]\<close> throws on an empty tree; beyond the end of level 0 it is
  \<^verbatim>\<open>undefined\<close>, which \<^verbatim>\<open>indexOf\<close> finds in no array of strings, so the result is
  \<^verbatim>\<open>null\<close>.
\<close>

definition proof_at :: "string list list \<Rightarrow> nat \<Rightarrow> error + Path list option" where
  "proof_at merkleTree i =
     (case merkleTree of
        [] \<Rightarrow> Inl TypeError
      | level0 # upper \<Rightarrow>
          if i < length level0 then generateMerkleProofWithOrder (level0 ! i) merkleTree
          else Inr None)"

fun every_user_loop ::
  "'n jsval list \<Rightarrow> string list list \<Rightarrow> nat \<Rightarrow> ClientPath list \<Rightarrow> error + ClientPath list" where
  "every_user_loop [] merkleTree i path = Inr path"
| "every_user_loop (client # rest) merkleTree i path =
     (case Object_keys client of
        Inl e \<Rightarrow> Inl e
      | Inr clientID \<Rightarrow>
          (case proof_at merkleTree i of
             Inl e \<Rightarrow> Inl e
           | Inr None \<Rightarrow> Inl (Error (''Proof not found for user '' @ first_key clientID))
           | Inr (Some proof) \<Rightarrow>
               every_user_loop rest merkleTree (i + 1) (path @ [(first_key clientID, proof)])))"

definition generateProofForEveryUser ::
  "'n jsval list \<Rightarrow> string list list \<Rightarrow> error + ClientPath list" where
  "generateProofForEveryUser inputList merkleTree = every_user_loop inputList merkleTree 0 []"

section \<open>verifyMerkleProofWithOrder\<close>

text \<open>The \<^verbatim>\<open>for await (const proofHash of proof)\<close> loop.\<close>

fun verify_loop :: "digest \<Rightarrow> DigestAlgorithm \<Rightarrow> string \<Rightarrow> Path list \<Rightarrow> string" where
  "verify_loop D algorithm computedHash [] = computedHash"
| "verify_loop D algorithm computedHash (proofHash # rest) =
     (let stringToHash =
            (if isRight proofHash then computedHash @ hash proofHash
             else hash proofHash @ computedHash)
      in verify_loop D algorithm (D algorithm stringToHash) rest)"

definition verifyMerkleProofWithOrder ::
  "digest \<Rightarrow> 'n stringify \<Rightarrow> 'n jsval \<Rightarrow> string \<Rightarrow> Path list \<Rightarrow> DigestAlgorithm
     \<Rightarrow> error + bool" where
  "verifyMerkleProofWithOrder D S leafRawData merkleRoot proof algorithm =
     (case S leafRawData of
        None \<Rightarrow> Inl TypeError
      | Some s \<Rightarrow> Inr (verify_loop D algorithm (D algorithm s) proof = merkleRoot))"

section \<open>Definitions for the statements\<close>

text \<open>
  A client entry as the spec has it: an object with exactly one key. The runtime check
  of \<open>hashList\<close> accepts exactly these values (\<open>check_client_iff\<close>). An entry is
  serializable when \<^verbatim>\<open>JSON.stringify\<close> does not throw on it.
\<close>

definition is_client_entry :: "'n jsval \<Rightarrow> bool" where
  "is_client_entry c = (case c of JObj [kv] \<Rightarrow> True | v \<Rightarrow> False)"

definition serializable :: "'n stringify \<Rightarrow> 'n jsval \<Rightarrow> bool" where
  "serializable S c = (S c \<noteq> None)"

text \<open>The levels of the tree over a list of leaf hashes, as the \<^verbatim>\<open>while\<close> loop collects them.\<close>

definition tree_levels :: "digest \<Rightarrow> DigestAlgorithm \<Rightarrow> string list \<Rightarrow> string list list" where
  "tree_levels D algorithm hashes = level_loop D algorithm hashes [hashes]"

text \<open>
  The fold of the proof verifier in the spec's words: for each entry concatenate
  (computedHash, siblingHash) if the side is right, else (siblingHash, computedHash),
  hash the concatenation, and carry the result on.
\<close>

definition fold_proof :: "digest \<Rightarrow> DigestAlgorithm \<Rightarrow> string \<Rightarrow> Path list \<Rightarrow> string" where
  "fold_proof D algorithm leafHash proof =
     foldl (\<lambda>computedHash entry.
              D algorithm (if isRight entry then computedHash @ hash entry
                           else hash entry @ computedHash))
       leafHash proof"

text \<open>The identifier of a client entry: its first key, as \<^verbatim>\<open>Object.keys(client)[0]\<close>.\<close>

definition client_id :: "'n jsval \<Rightarrow> string" where
  "client_id c = (case c of JObj ((k, v) # rest) \<Rightarrow> k | x \<Rightarrow> ''undefined'')"

text \<open>
  The rule in the spec's words. \<open>spec_pairs\<close>: pair the hashes at indices \<open>2i\<close>,
  \<open>2i+1\<close>, the last hash with itself when it has no right partner, and hash
  leftHash followed by rightHash. \<open>spec_next_level\<close>: then, exactly when the new level has
  odd length and the previous level was longer than 2, duplicate the new level's last hash.
\<close>

definition spec_pairs :: "digest \<Rightarrow> DigestAlgorithm \<Rightarrow> string list \<Rightarrow> string list" where
  "spec_pairs D algorithm level =
     map (\<lambda>i. D algorithm
                 (level ! (2 * i) @
                  (if 2 * i + 1 < length level then level ! (2 * i + 1) else level ! (2 * i))))
       [0..<(length level + 1) div 2]"

definition spec_next_level :: "digest \<Rightarrow> DigestAlgorithm \<Rightarrow> string list \<Rightarrow> string list" where
  "spec_next_level D algorithm level =
     (let paired = spec_pairs D algorithm level
      in if odd (length paired) \<and> length level > 2 then paired @ [last paired] else paired)"

text \<open>One iteration of the body of \<open>proof_loop\<close>: the proof after level \<open>i\<close>.\<close>

definition proof_step :: "string list list \<Rightarrow> nat \<Rightarrow> int \<Rightarrow> Path list \<Rightarrow> Path list" where
  "proof_step merkleTree i index acc =
     (if (if index mod 2 = 0 then index + 1 else index - 1) \<ge> 0 \<and>
         (if index mod 2 = 0 then index + 1 else index - 1) < int (length (merkleTree ! i))
      then acc @ [\<lparr>hash = merkleTree ! i ! nat (if index mod 2 = 0 then index + 1 else index - 1),
                   isRight = (index mod 2 = 0)\<rparr>]
      else acc)"

section \<open>Concrete inputs\<close>

text \<open>
  For evaluating the functions on concrete inputs the two external primitives are
  instantiated: \<open>toy_digest\<close> brackets its input (it is injective, as a collision-free
  digest would be, and ignores the algorithm), and \<open>toy_stringify\<close> renders a
  single-key object as its key, never failing.
\<close>

definition toy_digest :: digest where
  "toy_digest algorithm s = ''<'' @ s @ ''>''"

fun toy_stringify :: "nat jsval \<Rightarrow> string option" where
  "toy_stringify (JObj [(k, v)]) = Some k"
| "toy_stringify v = Some ''?''"

text \<open>Concrete client lists, shaped as \<^verbatim>\<open>generateClientList\<close> builds them.\<close>

definition client :: "string \<Rightarrow> nat jsval" where
  "client uid = JObj [(uid, JArr [JArr [JStr ''Token 1'', JNum 7]])]"

definition clients1 :: "nat jsval list" where
  "clients1 = [client ''Client 1'']"

definition clients3 :: "nat jsval list" where
  "clients3 = [client ''Client 1'', client ''Client 2'', client ''Client 3'']"

definition clients5 :: "nat jsval list" where
  "clients5 = [client ''Client 1'', client ''Client 2'', client ''Client 3'',
               client ''Client 4'', client ''Client 5'']"

text \<open>The tree of \<open>clients3\<close> under the stand-in primitives.\<close>

definition tree3_levels :: "string list list" where
  "tree3_levels =
     [[''<Client 1>'', ''<Client 2>'', ''<Client 3>''],
      [''<<Client 1><Client 2>>'', ''<<Client 3><Client 3>>''],
      [''<<<Client 1><Client 2>><<Client 3><Client 3>>>'']]"

text \<open>A tree whose level 0 holds the hash of \<^verbatim>\<open>Client 1\<close> at the indices 1 and 2.\<close>

definition clients_dup :: "nat jsval list" where
  "clients_dup = [client ''Client 2'', client ''Client 1'', client ''Client 1'', client ''Client 4'']"

definition tree_dup :: "string list list" where
  "tree_dup =
     [[''<Client 2>'', ''<Client 1>'', ''<Client 1>'', ''<Client 4>''],
      [''<<Client 2><Client 1>>'', ''<<Client 1><Client 4>>''],
      [''<<<Client 2><Client 1>><<Client 1><Client 4>>>'']]"

section \<open>Basic facts\<close>

lemma check_client_iff: "check_client c = Inr () \<longleftrightarrow> is_client_entry c"
  by (cases c) (auto simp: check_client_def is_client_entry_def split: list.splits)

lemma check_format_ok: "list_all is_client_entry cl \<Longrightarrow> check_format cl = Inr ()"
  by (induction cl) (auto simp: check_client_iff [symmetric])

lemma hash_loop_ok:
  "list_all (serializable S) cl \<Longrightarrow>
   hash_loop D S algorithm cl acc = Inr (acc @ map (\<lambda>c. D algorithm (the (S c))) cl)"
  by (induction cl arbitrary: acc) (auto simp: serializable_def)

lemma hashList_ok:
  "list_all is_client_entry cl \<Longrightarrow> list_all (serializable S) cl \<Longrightarrow>
   hashList D S cl algorithm = Inr (map (\<lambda>c. D algorithm (the (S c))) cl)"
  by (simp add: hashList_def check_format_ok hash_loop_ok)

lemma level_loop_acc:
  "level_loop D algorithm hashes fullTree = fullTree @ level_loop D algorithm hashes []"
proof (induction "length hashes" arbitrary: hashes fullTree rule: less_induct)
  case less
  show ?case
  proof (cases "length hashes > 1")
    case True
    define nl where "nl = next_level D algorithm hashes"
    have shorter: "length nl < length hashes"
      using True by (simp add: nl_def next_level_shorter)
    have "level_loop D algorithm hashes fullTree = level_loop D algorithm nl (fullTree @ [nl])"
      using True by (subst level_loop.simps) (simp add: Let_def nl_def)
    also have "\<dots> = (fullTree @ [nl]) @ level_loop D algorithm nl []"
      by (rule less [OF shorter])
    also have "\<dots> = fullTree @ level_loop D algorithm nl [nl]"
      using less [OF shorter, of "[nl]"] by simp
    also have "level_loop D algorithm nl [nl] = level_loop D algorithm hashes []"
      using True by (subst (2) level_loop.simps) (simp add: Let_def nl_def)
    finally show ?thesis .
  next
    case False
    then show ?thesis
      by (simp add: level_loop.simps)
  qed
qed

lemma tree_levels_rec:
  "tree_levels D algorithm hashes =
     (if length hashes > 1 then hashes # tree_levels D algorithm (next_level D algorithm hashes)
      else [hashes])"
  unfolding tree_levels_def
  by (subst level_loop.simps, subst level_loop_acc, subst (2) level_loop_acc) (simp add: Let_def)

lemma computeMerkleTree_ok:
  assumes "cl \<noteq> []" "list_all is_client_entry cl" "list_all (serializable S) cl"
  shows "computeMerkleTree D S cl algorithm
           = Inr (tree_levels D algorithm (map (\<lambda>c. D default_algorithm (the (S c))) cl))"
  using assms by (simp add: computeMerkleTree_def hashList_ok tree_levels_def)

lemma tree_levels_nth0: "tree_levels D algorithm hashes ! 0 = hashes"
  by (subst tree_levels_rec) simp

lemma tree_levels_nonempty: "tree_levels D algorithm hashes \<noteq> []"
  by (subst tree_levels_rec) simp

lemma last_tree_levels:
  "hashes \<noteq> [] \<Longrightarrow> length (last (tree_levels D algorithm hashes)) = 1"
proof (induction "length hashes" arbitrary: hashes rule: less_induct)
  case less
  show ?case
  proof (cases "length hashes > 1")
    case True
    define nl where "nl = next_level D algorithm hashes"
    have "length nl < length hashes"
      using True by (simp add: nl_def next_level_shorter)
    moreover have "nl \<noteq> []"
      using True by (auto simp: nl_def length_next_level Let_def simp flip: length_0_conv)
    ultimately have "length (last (tree_levels D algorithm nl)) = 1"
      by (rule less)
    then show ?thesis
      using True by (subst tree_levels_rec) (simp add: nl_def tree_levels_nonempty)
  next
    case False
    with less.prems have "length hashes = 1"
      by (cases hashes) auto
    then show ?thesis
      by (subst tree_levels_rec) simp
  qed
qed

lemma clients_well_formed:
  "list_all is_client_entry clients1" "list_all (serializable toy_stringify) clients1"
  "list_all is_client_entry clients3" "list_all (serializable toy_stringify) clients3"
  "list_all is_client_entry clients5" "list_all (serializable toy_stringify) clients5"
  by (simp_all add: clients1_def clients3_def clients5_def client_def is_client_entry_def
      serializable_def)

lemma verify_loop_fold:
  "verify_loop D algorithm computedHash proof = fold_proof D algorithm computedHash proof"
  by (induction "proof" arbitrary: computedHash) (simp_all add: fold_proof_def Let_def)

section \<open>Claims about hashing and tree construction\<close>

text \<open>
  C7. For the empty client list \<open>computeMerkleTree\<close> fails with the error
  \<^verbatim>\<open>Empty array of clients.\<close> and produces no tree; for every non-empty list of
  well-formed, serializable entries it returns a tree.
\<close>

theorem computeMerkleTree_empty_fails_nonempty_succeeds:
  "computeMerkleTree D S [] algorithm = Inl (Error ''Empty array of clients.'') \<and>
   (cl \<noteq> [] \<and> list_all is_client_entry cl \<and> list_all (serializable S) cl \<longrightarrow>
      (\<exists>tree. computeMerkleTree D S cl algorithm = Inr tree))"
  by (simp add: computeMerkleTree_ok) (simp add: computeMerkleTree_def)

theorem computeMerkleTree_empty_fails_nonempty_succeeds_witness:
  "clients3 \<noteq> [] \<and> list_all is_client_entry clients3 \<and>
   list_all (serializable toy_stringify) clients3 \<and>
   computeMerkleTree toy_digest toy_stringify [] default_algorithm
     = Inl (Error ''Empty array of clients.'') \<and>
   (\<exists>tree. computeMerkleTree toy_digest toy_stringify clients3 default_algorithm = Inr tree)"
proof -
  have ne: "clients3 \<noteq> []"
    by (simp add: clients3_def)
  show ?thesis
    using computeMerkleTree_empty_fails_nonempty_succeeds
            [where D = toy_digest and S = toy_stringify and algorithm = default_algorithm
               and cl = clients3]
          ne clients_well_formed(3,4)
    by simp
qed

text \<open>
  C8. For every well-formed, serializable client list \<open>hashList\<close> returns one leaf hash
  per entry, in the order of the entries, and (computed with the default algorithm) this
  list is level 0 of the tree that \<open>computeMerkleTree\<close> returns, so level 0 is as long
  as the client list.
\<close>

theorem hashList_one_hash_per_entry_is_level0:
  assumes "list_all is_client_entry cl" and "list_all (serializable S) cl"
  shows "(\<exists>hashes. hashList D S cl algorithm = Inr hashes \<and>
            length hashes = length cl \<and>
            (\<forall>i<length cl. hashes ! i = D algorithm (the (S (cl ! i))))) \<and>
         (cl \<noteq> [] \<longrightarrow>
            (\<exists>tree. computeMerkleTree D S cl algorithm' = Inr tree \<and>
               hashList D S cl default_algorithm = Inr (tree ! 0) \<and>
               length (tree ! 0) = length cl))"
  using assms by (simp add: hashList_ok computeMerkleTree_ok tree_levels_nth0)

theorem hashList_one_hash_per_entry_is_level0_witness:
  "list_all is_client_entry clients3 \<and> list_all (serializable toy_stringify) clients3 \<and>
   (\<exists>hashes. hashList toy_digest toy_stringify clients3 default_algorithm = Inr hashes \<and>
      length hashes = 3 \<and>
      (\<exists>tree. computeMerkleTree toy_digest toy_stringify clients3 default_algorithm = Inr tree \<and>
         tree ! 0 = hashes))"
proof -
  have "clients3 \<noteq> []" and "length clients3 = 3"
    by (simp_all add: clients3_def)
  then show ?thesis
    using hashList_one_hash_per_entry_is_level0
            [OF clients_well_formed(3,4), where D = toy_digest
               and algorithm = default_algorithm and algorithm' = default_algorithm]
          clients_well_formed(3,4)
    by auto
qed

text \<open>
  C9. Each level the loop of \<open>computeMerkleTree\<close> builds (after the padding step) is
  strictly shorter than the level it was built from whenever that level has at least two
  hashes, so the loop ends: on every non-empty well-formed list the function returns a
  tree whose last level has exactly one hash.
\<close>

theorem computeMerkleTree_terminates:
  "(2 \<le> length hashes \<longrightarrow> length (next_level D algorithm hashes) < length hashes) \<and>
   (cl \<noteq> [] \<and> list_all is_client_entry cl \<and> list_all (serializable S) cl \<longrightarrow>
      (\<exists>tree. computeMerkleTree D S cl algorithm = Inr tree \<and> tree \<noteq> [] \<and>
         length (last tree) = 1))"
  by (simp add: next_level_shorter computeMerkleTree_ok tree_levels_nonempty last_tree_levels)

theorem computeMerkleTree_terminates_witness:
  "2 \<le> length [''a'', ''b'', ''c''] \<and>
   length (next_level toy_digest default_algorithm [''a'', ''b'', ''c'']) < 3 \<and>
   clients5 \<noteq> [] \<and> list_all is_client_entry clients5 \<and>
   list_all (serializable toy_stringify) clients5 \<and>
   (\<exists>tree. computeMerkleTree toy_digest toy_stringify clients5 default_algorithm = Inr tree \<and>
      tree \<noteq> [] \<and> length (last tree) = 1)"
proof -
  have ne: "clients5 \<noteq> []"
    by (simp add: clients5_def)
  show ?thesis
    using computeMerkleTree_terminates
            [where hashes = "[''a'', ''b'', ''c'']" and D = toy_digest
               and algorithm = default_algorithm and cl = clients5 and S = toy_stringify]
          ne clients_well_formed(5,6)
    by simp
qed

section \<open>Claims about verification\<close>

text \<open>
  C4. \<open>verifyMerkleProofWithOrder\<close> folds the proof in order (computedHash followed by
  the sibling hash when the side flag is right, the sibling hash followed by computedHash
  otherwise, hashed, replacing computedHash) and returns the comparison of the final hash
  with the claimed root. It throws only when the entry cannot be serialized, never for a
  mismatch: a claimed root other than the folded result yields false.
\<close>

theorem verifyMerkleProofWithOrder_folds_and_compares:
  "(case S leafRawData of
      None \<Rightarrow> verifyMerkleProofWithOrder D S leafRawData merkleRoot path algorithm
                = Inl TypeError
    | Some s \<Rightarrow>
        verifyMerkleProofWithOrder D S leafRawData merkleRoot path algorithm
          = Inr (fold_proof D algorithm (D algorithm s) path = merkleRoot) \<and>
        (merkleRoot \<noteq> fold_proof D algorithm (D algorithm s) path \<longrightarrow>
           verifyMerkleProofWithOrder D S leafRawData merkleRoot path algorithm = Inr False))"
  by (auto simp: verifyMerkleProofWithOrder_def verify_loop_fold split: option.splits)

theorem verifyMerkleProofWithOrder_folds_and_compares_witness:
  "toy_stringify (client ''Client 1'') = Some ''Client 1'' \<and>
   ''invalid root'' \<noteq> fold_proof toy_digest default_algorithm
        (toy_digest default_algorithm ''Client 1'') [\<lparr>hash = ''<Client 2>'', isRight = True\<rparr>] \<and>
   verifyMerkleProofWithOrder toy_digest toy_stringify (client ''Client 1'') ''invalid root''
     [\<lparr>hash = ''<Client 2>'', isRight = True\<rparr>] default_algorithm = Inr False"
proof -
  have s: "toy_stringify (client ''Client 1'') = Some ''Client 1''"
    by (simp add: client_def)
  have ne: "''invalid root'' \<noteq> fold_proof toy_digest default_algorithm
        (toy_digest default_algorithm ''Client 1'') [\<lparr>hash = ''<Client 2>'', isRight = True\<rparr>]"
    by (simp add: fold_proof_def toy_digest_def)
  show ?thesis
    using verifyMerkleProofWithOrder_folds_and_compares
            [where S = toy_stringify and leafRawData = "client ''Client 1''"
               and D = toy_digest and merkleRoot = "''invalid root''"
               and algorithm = default_algorithm
               and path = "[\<lparr>hash = ''<Client 2>'', isRight = True\<rparr>]"]
          s ne
    by simp
qed

section \<open>The level construction rule\<close>

lemma pair_loop_map:
  "pair_loop D algorithm hashes (2 * k) nextLevel =
     nextLevel @
     map (\<lambda>i. D algorithm
                 (hashes ! (2 * i) @
                  (if 2 * i + 1 < length hashes then hashes ! (2 * i + 1) else hashes ! (2 * i))))
       [k..<(length hashes + 1) div 2]"
proof (induction "(length hashes + 1) div 2 - k" arbitrary: k nextLevel)
  case 0
  then have "\<not> 2 * k < length hashes" and "(length hashes + 1) div 2 \<le> k"
    by arith+
  then show ?case
    by (subst pair_loop.simps) simp
next
  case (Suc n)
  then have lt: "2 * k < length hashes" and k: "k < (length hashes + 1) div 2"
    by arith+
  have n: "n = (length hashes + 1) div 2 - Suc k"
    using Suc.hyps(2) by arith
  have "pair_loop D algorithm hashes (2 * k) nextLevel =
          pair_loop D algorithm hashes (2 * Suc k)
            (nextLevel @ [D algorithm (hashes ! (2 * k) @
               (if 2 * k + 1 < length hashes then hashes ! (2 * k + 1) else hashes ! (2 * k)))])"
    using lt by (subst pair_loop.simps) (simp add: Let_def)
  then show ?case
    using Suc.hyps(1) [OF n] k by (simp add: upt_conv_Cons)
qed

lemma next_level_spec: "next_level D algorithm hashes = spec_next_level D algorithm hashes"
proof -
  have "pair_loop D algorithm hashes 0 [] = spec_pairs D algorithm hashes"
    using pair_loop_map [of D algorithm hashes 0 "[]"] by (simp add: spec_pairs_def)
  moreover have "xs ! (length xs - 1) = last xs" if "odd (length xs)" for xs :: "string list"
    using that by (cases xs rule: rev_cases) simp_all
  ultimately show ?thesis
    by (simp add: next_level_def spec_next_level_def Let_def odd_iff_mod_2_eq_one)
qed

lemma tree_levels_step:
  "i < length (tree_levels D algorithm hashes) \<Longrightarrow>
   2 \<le> length (tree_levels D algorithm hashes ! i) \<Longrightarrow>
   Suc i < length (tree_levels D algorithm hashes) \<and>
   tree_levels D algorithm hashes ! Suc i
     = next_level D algorithm (tree_levels D algorithm hashes ! i)"
proof (induction i arbitrary: hashes)
  case 0
  then have "1 < length hashes"
    by (simp add: tree_levels_nth0)
  then show ?case
    by (subst (1 2 3) tree_levels_rec) (simp add: tree_levels_nth0 tree_levels_nonempty)
next
  case (Suc i)
  show ?case
  proof (cases "1 < length hashes")
    case True
    then have rec: "tree_levels D algorithm hashes
                      = hashes # tree_levels D algorithm (next_level D algorithm hashes)"
      by (subst tree_levels_rec) simp
    show ?thesis
      using Suc.prems Suc.IH [of "next_level D algorithm hashes"] by (simp add: rec)
  next
    case False
    then have "tree_levels D algorithm hashes = [hashes]"
      by (subst tree_levels_rec) simp
    with Suc.prems show ?thesis
      by simp
  qed
qed

text \<open>
  C2. In the tree built by \<open>computeMerkleTree\<close>, every level with at least two hashes is
  followed by a level, and that level is the one the spec's rule gives: the hashes of the
  adjacent pairs (the last hash paired with itself when alone), padded with a copy of its
  last hash exactly when its length is odd and the previous level was longer than 2.
\<close>

theorem computeMerkleTree_levels_follow_rule:
  assumes "computeMerkleTree D S cl algorithm = Inr tree"
    and "i < length tree" and "2 \<le> length (tree ! i)"
  shows "Suc i < length tree \<and> tree ! Suc i = spec_next_level D algorithm (tree ! i)"
proof -
  from assms(1) obtain hashes where "tree = tree_levels D algorithm hashes"
    by (auto simp: computeMerkleTree_def tree_levels_def split: if_splits sum.splits)
  with assms(2,3) show ?thesis
    using tree_levels_step [of i D algorithm hashes] by (simp add: next_level_spec)
qed

lemma computeMerkleTree_clients5:
  "computeMerkleTree toy_digest toy_stringify clients5 default_algorithm =
     Inr [[''<Client 1>'', ''<Client 2>'', ''<Client 3>'', ''<Client 4>'', ''<Client 5>''],
          [''<<Client 1><Client 2>>'', ''<<Client 3><Client 4>>'', ''<<Client 5><Client 5>>'',
           ''<<Client 5><Client 5>>''],
          [''<<<Client 1><Client 2>><<Client 3><Client 4>>>'',
           ''<<<Client 5><Client 5>><<Client 5><Client 5>>>''],
          [''<<<<Client 1><Client 2>><<Client 3><Client 4>>><<<Client 5><Client 5>><<Client 5><Client 5>>>>'']]"
proof -
  have "clients5 \<noteq> []"
    by (simp add: clients5_def)
  then show ?thesis
    by (simp add: computeMerkleTree_ok clients_well_formed)
       (simp add: clients5_def client_def tree_levels_rec next_level_spec spec_next_level_def
          spec_pairs_def toy_digest_def Let_def upt_rec)
qed

theorem computeMerkleTree_levels_follow_rule_witness:
  "(\<exists>tree. computeMerkleTree toy_digest toy_stringify clients5 default_algorithm = Inr tree \<and>
      0 < length tree \<and> 2 \<le> length (tree ! 0) \<and> Suc 0 < length tree \<and>
      tree ! Suc 0 = spec_next_level toy_digest default_algorithm (tree ! 0) \<and>
      tree ! Suc 0 = [''<<Client 1><Client 2>>'', ''<<Client 3><Client 4>>'',
                      ''<<Client 5><Client 5>>'', ''<<Client 5><Client 5>>''])"
  using computeMerkleTree_levels_follow_rule [OF computeMerkleTree_clients5, of 0]
        computeMerkleTree_clients5
  by simp

section \<open>Depth of the tree\<close>

lemma ceillog2_pad: 
  assumes "odd m" and "2 < m"
  shows "ceillog2 (m + 1) = ceillog2 m"
proof -
  from assms obtain k where m: "m = Suc (2 * k)" and k: "0 < k"
    by (auto elim!: oddE)
  have "ceillog2 (m + 1) = ceillog2 (2 * Suc k)"
    by (simp add: m)
  also have "\<dots> = Suc (ceillog2 (Suc k))"
    by (rule ceillog2_rec_even) simp
  also have "\<dots> = ceillog2 m"
    unfolding m using k by (rule ceillog2_rec_odd [symmetric])
  finally show ?thesis .
qed

lemma ceillog2_next_level:
  assumes "1 < length hashes"
  shows "ceillog2 (length hashes) = Suc (ceillog2 (length (next_level D algorithm hashes)))"
proof -
  define n where "n = length hashes"
  define m where "m = (n + 1) div 2"
  have n: "1 < n"
    using assms by (simp add: n_def)
  have rec: "ceillog2 n = Suc (ceillog2 m)"
    using n by (subst ceillog2_rec) (simp add: m_def)
  have len: "length (next_level D algorithm hashes) = (if odd m \<and> 2 < n then m + 1 else m)"
    by (simp add: length_next_level Let_def m_def n_def)
  show ?thesis
  proof (cases "odd m \<and> 2 < n")
    case True
    then have "2 < m"
      unfolding m_def by (cases "n = 3"; cases "n = 4") (auto elim!: oddE)
    with True have "ceillog2 (m + 1) = ceillog2 m"
      using ceillog2_pad [of m] by blast
    with True rec len show ?thesis
      by (simp add: n_def)
  next
    case False
    with rec len show ?thesis
      by (auto simp: n_def)
  qed
qed

lemma length_tree_levels:
  "hashes \<noteq> [] \<Longrightarrow> length (tree_levels D algorithm hashes) = ceillog2 (length hashes) + 1"
proof (induction "length hashes" arbitrary: hashes rule: less_induct)
  case less
  show ?case
  proof (cases "length hashes > 1")
    case True
    define nl where "nl = next_level D algorithm hashes"
    have "length nl < length hashes"
      using True by (simp add: nl_def next_level_shorter)
    moreover have "nl \<noteq> []"
      using True by (auto simp: nl_def length_next_level Let_def simp flip: length_0_conv)
    ultimately have "length (tree_levels D algorithm nl) = ceillog2 (length nl) + 1"
      by (rule less)
    then show ?thesis
      using True ceillog2_next_level [OF True, of D algorithm]
      by (subst tree_levels_rec) (simp add: nl_def)
  next
    case False
    with less.prems have "length hashes = 1"
      by (cases hashes) auto
    then show ?thesis
      by (subst tree_levels_rec) simp
  qed
qed

lemma int_ceillog2:
  assumes "0 < n"
  shows "int (ceillog2 n) = \<lceil>log 2 (real n)\<rceil>"
proof -
  have "0 \<le> log 2 (real n)"
    using assms by simp
  then have "0 \<le> \<lceil>log 2 (real n)\<rceil>"
    by linarith
  then show ?thesis
    using assms by (simp add: ceillog2_def)
qed

lemma single_leaf_proof: "generateMerkleProofWithOrder h [[h]] = Inr (Some [])"
  by (simp add: generateMerkleProofWithOrder_def indexOf_def proof_loop.simps)

text \<open>
  C3. For a client list of \<open>N\<close> well-formed entries the tree that \<open>computeMerkleTree\<close>
  returns has exactly \<open>\<lceil>log\<^sub>2 N\<rceil> + 1\<close> levels; for 5 entries that is 4, and for a single
  entry the tree has one level and the proof of that entry is the empty list.
\<close>

theorem computeMerkleTree_depth:
  assumes "cl \<noteq> []" and "list_all is_client_entry cl" and "list_all (serializable S) cl"
  shows "\<exists>tree. computeMerkleTree D S cl algorithm = Inr tree \<and>
           int (length tree) = \<lceil>log 2 (real (length cl))\<rceil> + 1 \<and>
           (length cl = 5 \<longrightarrow> length tree = 4) \<and>
           (length cl = 1 \<longrightarrow> length tree = 1 \<and>
              generateMerkleProofWithOrder (D default_algorithm (the (S (cl ! 0)))) tree
                = Inr (Some []))"
proof -
  define hashes where "hashes = map (\<lambda>c. D default_algorithm (the (S c))) cl"
  define tree where "tree = tree_levels D algorithm hashes"
  have tree: "computeMerkleTree D S cl algorithm = Inr tree"
    using assms by (simp add: computeMerkleTree_ok tree_def hashes_def)
  have ne: "hashes \<noteq> []" and len: "length hashes = length cl"
    using assms(1) by (simp_all add: hashes_def)
  have depth: "length tree = ceillog2 (length cl) + 1"
    using length_tree_levels [OF ne, of D algorithm] by (simp add: tree_def len)
  have "int (length tree) = \<lceil>log 2 (real (length cl))\<rceil> + 1"
    using assms(1) by (simp add: depth int_ceillog2)
  moreover have "length tree = 4" if "length cl = 5"
  proof -
    have "ceillog2 5 = 3"
      by (rule ceillog2_eqI) simp_all
    with that show ?thesis
      by (simp add: depth)
  qed
  moreover have "length tree = 1" if "length cl = 1"
    using that by (simp add: depth)
  moreover have "generateMerkleProofWithOrder (D default_algorithm (the (S (cl ! 0)))) tree
                   = Inr (Some [])" if "length cl = 1"
  proof -
    from that obtain c where "cl = [c]"
      by (cases cl) auto
    then have "tree = [[D default_algorithm (the (S c))]]"
      unfolding tree_def hashes_def by (subst tree_levels_rec) simp
    then show ?thesis
      using \<open>cl = [c]\<close> by (simp add: single_leaf_proof)
  qed
  ultimately show ?thesis
    using tree by blast
qed

theorem computeMerkleTree_depth_witness:
  "clients5 \<noteq> [] \<and> list_all is_client_entry clients5 \<and>
   list_all (serializable toy_stringify) clients5 \<and> length clients5 = 5 \<and>
   clients1 \<noteq> [] \<and> list_all is_client_entry clients1 \<and>
   list_all (serializable toy_stringify) clients1 \<and> length clients1 = 1 \<and>
   (\<exists>tree. computeMerkleTree toy_digest toy_stringify clients5 default_algorithm = Inr tree \<and>
      length tree = 4) \<and>
   (\<exists>tree. computeMerkleTree toy_digest toy_stringify clients1 default_algorithm = Inr tree \<and>
      length tree = 1 \<and>
      generateMerkleProofWithOrder
        (toy_digest default_algorithm (the (toy_stringify (clients1 ! 0)))) tree = Inr (Some []))"
proof -
  have five: "clients5 \<noteq> []" "length clients5 = 5"
    by (simp_all add: clients5_def)
  have one: "clients1 \<noteq> []" "length clients1 = 1"
    by (simp_all add: clients1_def)
  show ?thesis
    using computeMerkleTree_depth [OF five(1) clients_well_formed(5,6),
            where D = toy_digest and algorithm = default_algorithm]
          computeMerkleTree_depth [OF one(1) clients_well_formed(1,2),
            where D = toy_digest and algorithm = default_algorithm]
          five one clients_well_formed
    by auto
qed

section \<open>Proof lookup\<close>

lemma indexOf_from_eq:
  "indexOf_from xs x k =
     (if x \<in> set xs then k + int (length (takeWhile (\<lambda>y. y \<noteq> x) xs)) else - 1)"
  by (induction xs arbitrary: k) auto

lemma indexOf_absent: "x \<notin> set xs \<Longrightarrow> indexOf xs x = - 1"
  by (simp add: indexOf_def indexOf_from_eq)

lemma indexOf_first:
  assumes "i < length xs" and "xs ! i = x" and "\<forall>j<i. xs ! j \<noteq> x"
  shows "indexOf xs x = int i"
proof -
  have "takeWhile (\<lambda>y. y \<noteq> x) xs = take i xs"
    using assms by (intro takeWhile_eq_take_P_nth) auto
  moreover have "x \<in> set xs"
    using assms(1,2) by (auto simp: in_set_conv_nth)
  ultimately show ?thesis
    using assms(1) by (simp add: indexOf_def indexOf_from_eq)
qed

lemma takeWhile_shorter: "x \<in> set xs \<Longrightarrow> length (takeWhile (\<lambda>y. y \<noteq> x) xs) < length xs"
  by (induction xs) auto

lemma indexOf_present: "x \<in> set xs \<Longrightarrow> 0 \<le> indexOf xs x \<and> indexOf xs x < int (length xs)"
  by (simp add: indexOf_def indexOf_from_eq takeWhile_shorter)

lemma generateMerkleProofWithOrder_absent:
  "merkleTree \<noteq> [] \<Longrightarrow> leafHash \<notin> set (merkleTree ! 0) \<Longrightarrow>
   generateMerkleProofWithOrder leafHash merkleTree = Inr None"
  by (cases merkleTree) (simp_all add: generateMerkleProofWithOrder_def indexOf_absent)

lemma generateMerkleProofWithOrder_present:
  "merkleTree \<noteq> [] \<Longrightarrow> leafHash \<in> set (merkleTree ! 0) \<Longrightarrow>
   generateMerkleProofWithOrder leafHash merkleTree
     = Inr (Some (proof_loop merkleTree 0 (indexOf (merkleTree ! 0) leafHash) []))"
  using indexOf_present [of leafHash "merkleTree ! 0"]
  by (cases merkleTree) (auto simp: generateMerkleProofWithOrder_def Let_def)

lemma proof_at_Inl: "proof_at merkleTree i = Inl e \<Longrightarrow> merkleTree = []"
  by (cases merkleTree)
     (auto simp: proof_at_def generateMerkleProofWithOrder_def Let_def split: if_splits)

lemma proof_at_empty: "proof_at [] i = Inl TypeError"
  by (simp add: proof_at_def)

lemma Object_keys_client: "is_client_entry c \<Longrightarrow> Object_keys c = Inr [client_id c]"
  by (cases c) (auto simp: is_client_entry_def client_id_def split: list.splits)

lemma every_user_loop_not_found:
  assumes "list_all is_client_entry cl" and "i < length cl"
    and "proof_at merkleTree (n + i) = Inr None"
  shows "\<exists>k\<le>i. proof_at merkleTree (n + k) = Inr None \<and>
           every_user_loop cl merkleTree n path
             = Inl (Error (''Proof not found for user '' @ client_id (cl ! k)))"
  using assms
proof (induction cl arbitrary: i n path)
  case Nil
  then show ?case by simp
next
  case (Cons c cs)
  have keys: "Object_keys c = Inr [client_id c]"
    using Cons.prems(1) by (simp add: Object_keys_client)
  have tree: "merkleTree \<noteq> []"
    using Cons.prems(3) by (auto simp: proof_at_empty)
  show ?case
  proof (cases "proof_at merkleTree n")
    case (Inl e)
    with tree show ?thesis
      by (simp add: proof_at_Inl)
  next
    case (Inr r)
    show ?thesis
    proof (cases r)
      case None
      with Inr keys have "every_user_loop (c # cs) merkleTree n path
              = Inl (Error (''Proof not found for user '' @ client_id ((c # cs) ! 0)))"
        by (simp add: first_key_def)
      with Inr None show ?thesis
        by (intro exI [of _ 0]) simp
    next
      case (Some p)
      with Inr Cons.prems(3) obtain i' where i: "i = Suc i'"
        by (cases i) auto
      with Cons.prems have "i' < length cs" and "proof_at merkleTree (Suc n + i') = Inr None"
        and "list_all is_client_entry cs"
        by simp_all
      from Cons.IH [OF this(3,1,2), of "path @ [(client_id c, p)]"]
      obtain k where "k \<le> i'" and "proof_at merkleTree (Suc n + k) = Inr None"
        and "every_user_loop cs merkleTree (Suc n) (path @ [(client_id c, p)])
               = Inl (Error (''Proof not found for user '' @ client_id (cs ! k)))"
        by blast
      with Inr Some keys i show ?thesis
        by (intro exI [of _ "Suc k"]) (simp add: first_key_def)
    qed
  qed
qed

text \<open>
  C5. Looking up a hash that is absent from level 0 returns \<^verbatim>\<open>null\<close> (\<open>Inr None\<close>)
  without throwing. The batch form is all-or-nothing: over well-formed entries, if the
  lookup of some client returns \<^verbatim>\<open>null\<close> the whole call throws
  \<^verbatim>\<open>Proof not found for user <id>\<close>, where \<open>id\<close> is the identifier of a client whose
  lookup returned \<^verbatim>\<open>null\<close>, and no list of paths is returned.
\<close>

theorem proof_lookup_not_found_batch_all_or_nothing:
  "(merkleTree \<noteq> [] \<and> leafHash \<notin> set (merkleTree ! 0) \<longrightarrow>
      generateMerkleProofWithOrder leafHash merkleTree = Inr None) \<and>
   (list_all is_client_entry inputList \<and> i < length inputList \<and>
    proof_at merkleTree i = Inr None \<longrightarrow>
      (\<exists>k\<le>i. proof_at merkleTree k = Inr None \<and>
         generateProofForEveryUser inputList merkleTree
           = Inl (Error (''Proof not found for user '' @ client_id (inputList ! k)))))"
  using every_user_loop_not_found [of inputList i merkleTree 0 "[]"]
  by (simp add: generateMerkleProofWithOrder_absent generateProofForEveryUser_def)

lemma computeMerkleTree_clients3:
  "computeMerkleTree toy_digest toy_stringify clients3 default_algorithm = Inr tree3_levels"
proof -
  have "clients3 \<noteq> []"
    by (simp add: clients3_def)
  then show ?thesis
    by (simp add: computeMerkleTree_ok clients_well_formed)
       (simp add: clients3_def client_def tree_levels_rec next_level_spec spec_next_level_def
          spec_pairs_def toy_digest_def Let_def upt_rec tree3_levels_def)
qed

theorem proof_lookup_not_found_batch_all_or_nothing_witness:
  "tree3_levels \<noteq> [] \<and> ''non-existing hash'' \<notin> set (tree3_levels ! 0) \<and>
   generateMerkleProofWithOrder ''non-existing hash'' tree3_levels = Inr None \<and>
   list_all is_client_entry (clients3 @ [client ''nonexistentUser'']) \<and>
   3 < length (clients3 @ [client ''nonexistentUser'']) \<and>
   proof_at tree3_levels 3 = Inr None \<and>
   generateProofForEveryUser (clients3 @ [client ''nonexistentUser'']) tree3_levels
     = Inl (Error ''Proof not found for user nonexistentUser'')"
proof -
  have wf: "list_all is_client_entry (clients3 @ [client ''nonexistentUser''])"
    by (simp add: clients_well_formed) (simp add: client_def is_client_entry_def)
  have len: "3 < length (clients3 @ [client ''nonexistentUser''])"
    by (simp add: clients3_def)
  have absent: "tree3_levels \<noteq> []" "''non-existing hash'' \<notin> set (tree3_levels ! 0)"
    by (simp_all add: tree3_levels_def)
  have p3: "proof_at tree3_levels 3 = Inr None"
    by (simp add: proof_at_def tree3_levels_def)
  have found: "proof_at tree3_levels k \<noteq> Inr None" if "k < 3" for k
  proof -
    from that have "k < length (tree3_levels ! 0)"
      by (simp add: tree3_levels_def)
    then have "tree3_levels ! 0 ! k \<in> set (tree3_levels ! 0)"
      by (rule nth_mem)
    moreover have "proof_at tree3_levels k
        = generateMerkleProofWithOrder (tree3_levels ! 0 ! k) tree3_levels"
      using that by (simp add: proof_at_def tree3_levels_def)
    ultimately show ?thesis
      using absent(1) by (simp add: generateMerkleProofWithOrder_present)
  qed
  from proof_lookup_not_found_batch_all_or_nothing
         [where merkleTree = tree3_levels and leafHash = "''non-existing hash''"
            and inputList = "clients3 @ [client ''nonexistentUser'']" and i = 3]
       wf len absent p3
  obtain k where none: "generateMerkleProofWithOrder ''non-existing hash'' tree3_levels = Inr None"
    and k: "k \<le> 3" "proof_at tree3_levels k = Inr None"
    and err: "generateProofForEveryUser (clients3 @ [client ''nonexistentUser'']) tree3_levels
           = Inl (Error (''Proof not found for user ''
                   @ client_id ((clients3 @ [client ''nonexistentUser'']) ! k)))"
    by blast
  from k found have "k = 3"
    by (cases "k < 3") auto
  with err have "generateProofForEveryUser (clients3 @ [client ''nonexistentUser'']) tree3_levels
           = Inl (Error ''Proof not found for user nonexistentUser'')"
    by (simp add: clients3_def client_def client_id_def)
  with wf len absent p3 none show ?thesis
    by simp
qed

section \<open>Duplicate leaf hashes\<close>

lemma proof_at_present:
  assumes "merkleTree \<noteq> []" and "k < length (merkleTree ! 0)"
  shows "proof_at merkleTree k
           = Inr (Some (proof_loop merkleTree 0
                          (indexOf (merkleTree ! 0) (merkleTree ! 0 ! k)) []))"
proof -
  have "proof_at merkleTree k = generateMerkleProofWithOrder (merkleTree ! 0 ! k) merkleTree"
    using assms by (cases merkleTree) (simp_all add: proof_at_def)
  moreover have "merkleTree ! 0 ! k \<in> set (merkleTree ! 0)"
    using assms(2) by (rule nth_mem)
  ultimately show ?thesis
    using assms(1) by (simp add: generateMerkleProofWithOrder_present)
qed

lemma every_user_loop_ok:
  assumes "list_all is_client_entry cl" and "merkleTree \<noteq> []"
    and "n + length cl \<le> length (merkleTree ! 0)"
  shows "every_user_loop cl merkleTree n path =
           Inr (path @
                map (\<lambda>k. (client_id (cl ! k),
                          proof_loop merkleTree 0
                            (indexOf (merkleTree ! 0) (merkleTree ! 0 ! (n + k))) []))
                  [0..<length cl])"
  using assms
proof (induction cl arbitrary: n path)
  case Nil
  then show ?case by simp
next
  case (Cons c cs)
  have keys: "Object_keys c = Inr [client_id c]"
    using Cons.prems(1) by (simp add: Object_keys_client)
  have here: "proof_at merkleTree n
                = Inr (Some (proof_loop merkleTree 0
                               (indexOf (merkleTree ! 0) (merkleTree ! 0 ! n)) []))"
    using Cons.prems by (intro proof_at_present) simp_all
  have rest: "every_user_loop cs merkleTree (Suc n) path' =
           Inr (path' @
                map (\<lambda>k. (client_id (cs ! k),
                          proof_loop merkleTree 0
                            (indexOf (merkleTree ! 0) (merkleTree ! 0 ! (Suc n + k))) []))
                  [0..<length cs])" for path'
    using Cons.prems by (intro Cons.IH) simp_all
  show ?case
    by (simp add: keys here rest first_key_def map_upt_Suc del: upt_Suc)
qed

text \<open>
  C10. When a leaf hash occurs at several indices of level 0,
  \<open>generateMerkleProofWithOrder\<close> returns the sibling path of its first occurrence (the
  path that the loop collects starting from the lowest index holding the hash), and
  \<open>generateProofForEveryUser\<close> gives every client whose position holds that hash this
  same path.
\<close>

theorem duplicate_leaf_hash_gets_first_occurrence_proof:
  assumes "merkleTree \<noteq> []" and "i < length (merkleTree ! 0)"
    and "merkleTree ! 0 ! i = h" and "\<forall>j<i. merkleTree ! 0 ! j \<noteq> h"
  shows "generateMerkleProofWithOrder h merkleTree
           = Inr (Some (proof_loop merkleTree 0 (int i) [])) \<and>
         (list_all is_client_entry inputList \<and> length inputList \<le> length (merkleTree ! 0) \<longrightarrow>
            (\<exists>paths. generateProofForEveryUser inputList merkleTree = Inr paths \<and>
               length paths = length inputList \<and>
               (\<forall>k<length inputList. merkleTree ! 0 ! k = h \<longrightarrow>
                  paths ! k = (client_id (inputList ! k), proof_loop merkleTree 0 (int i) []))))"
proof -
  have first: "indexOf (merkleTree ! 0) h = int i"
    using assms(2-4) by (rule indexOf_first)
  have "h \<in> set (merkleTree ! 0)"
    using assms(2,3) by (auto simp: in_set_conv_nth)
  then have single: "generateMerkleProofWithOrder h merkleTree
                       = Inr (Some (proof_loop merkleTree 0 (int i) []))"
    using assms(1) first by (simp add: generateMerkleProofWithOrder_present)
  have batch: "\<exists>paths. generateProofForEveryUser inputList merkleTree = Inr paths \<and>
               length paths = length inputList \<and>
               (\<forall>k<length inputList. merkleTree ! 0 ! k = h \<longrightarrow>
                  paths ! k = (client_id (inputList ! k), proof_loop merkleTree 0 (int i) []))"
    if "list_all is_client_entry inputList" and "length inputList \<le> length (merkleTree ! 0)"
    using every_user_loop_ok [OF that(1) assms(1), of 0 "[]"] that(2) first
    by (simp add: generateProofForEveryUser_def)
  from single batch show ?thesis
    by blast
qed

lemma computeMerkleTree_clients_dup:
  "computeMerkleTree toy_digest toy_stringify clients_dup default_algorithm = Inr tree_dup"
proof -
  have "clients_dup \<noteq> []" "list_all is_client_entry clients_dup"
    "list_all (serializable toy_stringify) clients_dup"
    by (simp_all add: clients_dup_def client_def is_client_entry_def serializable_def)
  then show ?thesis
    by (simp add: computeMerkleTree_ok)
       (simp add: clients_dup_def client_def tree_levels_rec next_level_spec spec_next_level_def
          spec_pairs_def toy_digest_def Let_def upt_rec tree_dup_def)
qed

theorem duplicate_leaf_hash_gets_first_occurrence_proof_witness:
  "tree_dup \<noteq> [] \<and> 1 < length (tree_dup ! 0) \<and> tree_dup ! 0 ! 0 \<noteq> ''<Client 1>'' \<and>
   tree_dup ! 0 ! 1 = ''<Client 1>'' \<and> tree_dup ! 0 ! 2 = ''<Client 1>'' \<and>
   list_all is_client_entry clients_dup \<and> length clients_dup \<le> length (tree_dup ! 0) \<and>
   generateMerkleProofWithOrder ''<Client 1>'' tree_dup
     = Inr (Some [\<lparr>hash = ''<Client 2>'', isRight = False\<rparr>,
                  \<lparr>hash = ''<<Client 1><Client 4>>'', isRight = True\<rparr>]) \<and>
   (\<exists>paths. generateProofForEveryUser clients_dup tree_dup = Inr paths \<and>
      paths ! 1 = (''Client 1'', [\<lparr>hash = ''<Client 2>'', isRight = False\<rparr>,
                                 \<lparr>hash = ''<<Client 1><Client 4>>'', isRight = True\<rparr>]) \<and>
      paths ! 2 = (''Client 1'', [\<lparr>hash = ''<Client 2>'', isRight = False\<rparr>,
                                 \<lparr>hash = ''<<Client 1><Client 4>>'', isRight = True\<rparr>]))"
proof -
  have wf: "list_all is_client_entry clients_dup" "length clients_dup \<le> length (tree_dup ! 0)"
    "1 < length clients_dup" "2 < length clients_dup"
    "client_id (clients_dup ! 1) = ''Client 1''" "client_id (clients_dup ! 2) = ''Client 1''"
    by (simp_all add: clients_dup_def client_def is_client_entry_def tree_dup_def client_id_def)
  have tr: "tree_dup \<noteq> []" "1 < length (tree_dup ! 0)" "tree_dup ! 0 ! 1 = ''<Client 1>''"
    "tree_dup ! 0 ! 2 = ''<Client 1>''" "tree_dup ! 0 ! 0 \<noteq> ''<Client 1>''"
    by (simp_all add: tree_dup_def)
  from tr(5) have first: "\<forall>j<1. tree_dup ! 0 ! j \<noteq> ''<Client 1>''"
    by simp
  have path: "proof_loop tree_dup 0 (int 1) []
                = [\<lparr>hash = ''<Client 2>'', isRight = False\<rparr>,
                   \<lparr>hash = ''<<Client 1><Client 4>>'', isRight = True\<rparr>]"
    by (simp add: proof_loop.simps tree_dup_def Let_def)
  show ?thesis
    using duplicate_leaf_hash_gets_first_occurrence_proof
            [OF tr(1,2,3) first, where inputList = clients_dup] wf tr path
    by auto
qed

section \<open>Malformed entries\<close>

lemma check_client_malformed:
  "\<not> is_client_entry c \<Longrightarrow> c \<noteq> JNull \<Longrightarrow>
   check_client c = Inl (Error ''Invalid format for ClientList'')"
  by (cases c) (auto simp: check_client_def is_client_entry_def split: list.splits)

text \<open>
  Every list with a malformed entry and no \<^verbatim>\<open>null\<close> entry is rejected with the format
  error, whatever \<^verbatim>\<open>JSON.stringify\<close> and the digest would do: nothing is hashed first.
\<close>

lemma hashList_malformed_entry:
  assumes "\<not> list_all is_client_entry cl" and "JNull \<notin> set cl"
  shows "hashList D S cl algorithm = Inl (Error ''Invalid format for ClientList'')"
proof -
  have "check_format cl = Inl (Error ''Invalid format for ClientList'')"
    using assms
  proof (induction cl)
    case Nil
    then show ?case by simp
  next
    case (Cons c cs)
    show ?case
    proof (cases "is_client_entry c")
      case True
      with Cons show ?thesis
        by (simp add: check_client_iff [symmetric])
    next
      case False
      moreover from Cons.prems(2) have "c \<noteq> JNull"
        by auto
      ultimately show ?thesis
        by (simp add: check_client_malformed)
    qed
  qed
  then show ?thesis
    by (simp add: hashList_def)
qed

text \<open>
  C6 (the code departs from the claim). A \<^verbatim>\<open>null\<close> entry is not a single-key object, but
  \<^verbatim>\<open>typeof null\<close> is \<^verbatim>\<open>object\<close> and \<^verbatim>\<open>null\<close> is no array, so the check goes on to
  \<^verbatim>\<open>Object.keys(null)\<close>, which throws a TypeError: \<open>hashList\<close> fails with a TypeError
  instead of the format error.
\<close>

theorem hashList_null_entry_TypeError:
  "hashList D S [JNull] algorithm = Inl TypeError"
  by (simp add: hashList_def check_client_def)

section \<open>The round trip\<close>

lemma tree_levels_three:
  "tree_levels D algorithm [h1, h2, h3] =
     [[h1, h2, h3],
      [D algorithm (h1 @ h2), D algorithm (h3 @ h3)],
      [D algorithm (D algorithm (h1 @ h2) @ D algorithm (h3 @ h3))]]"
  by (simp add: tree_levels_rec next_level_spec spec_next_level_def spec_pairs_def Let_def
      upt_rec)

lemma proof_of_third:
  assumes "h3 \<noteq> h1" and "h3 \<noteq> h2"
  shows "generateMerkleProofWithOrder h3 [[h1, h2, h3], [a, b], [r]]
           = Inr (Some [\<lparr>hash = a, isRight = False\<rparr>])"
  using assms
  by (simp add: generateMerkleProofWithOrder_def indexOf_def proof_loop.simps Let_def)

text \<open>
  C1 (the code departs from the claim). For a list of three clients whose third leaf hash
  differs from the first two, the proof generated for the third client does not verify
  against the root, unless the digest collides. At level 0 the third leaf has no right
  neighbour, so \<open>proof_loop\<close> appends no entry for that level, while \<open>pair_loop\<close> has
  paired the leaf with itself: the verifier hashes the leaf hash itself, not the hash of
  its self-pair, with the sibling of level 1.
\<close>

theorem round_trip_fails_for_third_of_three:
  assumes "list_all is_client_entry [c1, c2, c3]"
    and "S c1 = Some s1" and "S c2 = Some s2" and "S c3 = Some s3"
    and "h1 = D default_algorithm s1" and "h2 = D default_algorithm s2"
    and "h3 = D default_algorithm s3"
    and "h3 \<noteq> h1" and "h3 \<noteq> h2"
    and "D default_algorithm (D default_algorithm (h1 @ h2) @ h3)
           \<noteq> D default_algorithm (D default_algorithm (h1 @ h2) @ D default_algorithm (h3 @ h3))"
  shows "\<exists>tree path.
           computeMerkleTree D S [c1, c2, c3] default_algorithm = Inr tree \<and>
           generateMerkleProofWithOrder h3 tree = Inr (Some path) \<and>
           verifyMerkleProofWithOrder D S c3 (last tree ! 0) path default_algorithm = Inr False"
proof -
  define tree where "tree = tree_levels D default_algorithm [h1, h2, h3]"
  have "list_all (serializable S) [c1, c2, c3]"
    using assms(2-4) by (simp add: serializable_def)
  with assms(1) have built: "computeMerkleTree D S [c1, c2, c3] default_algorithm = Inr tree"
    using assms(2-7) by (simp add: computeMerkleTree_ok tree_def)
  have path: "generateMerkleProofWithOrder h3 tree
                = Inr (Some [\<lparr>hash = D default_algorithm (h1 @ h2), isRight = False\<rparr>])"
    unfolding tree_def tree_levels_three using assms(8,9) by (rule proof_of_third)
  have "verifyMerkleProofWithOrder D S c3 (last tree ! 0)
          [\<lparr>hash = D default_algorithm (h1 @ h2), isRight = False\<rparr>] default_algorithm
            = Inr False"
    using assms(4,7,10)
    by (simp add: verifyMerkleProofWithOrder_def tree_def tree_levels_three Let_def)
  with built path show ?thesis
    by blast
qed

theorem round_trip_fails_for_third_of_three_witness:
  "list_all is_client_entry clients3 \<and>
   toy_stringify (clients3 ! 0) = Some ''Client 1'' \<and>
   toy_stringify (clients3 ! 1) = Some ''Client 2'' \<and>
   toy_stringify (clients3 ! 2) = Some ''Client 3'' \<and>
   toy_digest default_algorithm ''Client 3'' \<noteq> toy_digest default_algorithm ''Client 1'' \<and>
   toy_digest default_algorithm ''Client 3'' \<noteq> toy_digest default_algorithm ''Client 2'' \<and>
   (\<exists>tree path.
      computeMerkleTree toy_digest toy_stringify clients3 default_algorithm = Inr tree \<and>
      generateMerkleProofWithOrder
        (toy_digest default_algorithm (the (toy_stringify (clients3 ! 2)))) tree
          = Inr (Some path) \<and>
      verifyMerkleProofWithOrder toy_digest toy_stringify (clients3 ! 2) (last tree ! 0) path
        default_algorithm = Inr False)"
proof -
  have c: "clients3 = [client ''Client 1'', client ''Client 2'', client ''Client 3'']"
    by (simp add: clients3_def)
  have wf: "list_all is_client_entry [client ''Client 1'', client ''Client 2'', client ''Client 3'']"
    using clients_well_formed(3) by (simp add: c)
  have s: "toy_stringify (client ''Client 1'') = Some ''Client 1''"
    "toy_stringify (client ''Client 2'') = Some ''Client 2''"
    "toy_stringify (client ''Client 3'') = Some ''Client 3''"
    by (simp_all add: client_def)
  have ne: "toy_digest default_algorithm ''Client 3'' \<noteq> toy_digest default_algorithm ''Client 1''"
    "toy_digest default_algorithm ''Client 3'' \<noteq> toy_digest default_algorithm ''Client 2''"
    "toy_digest default_algorithm
       (toy_digest default_algorithm
          (toy_digest default_algorithm ''Client 1'' @ toy_digest default_algorithm ''Client 2'')
        @ toy_digest default_algorithm ''Client 3'')
     \<noteq> toy_digest default_algorithm
       (toy_digest default_algorithm
          (toy_digest default_algorithm ''Client 1'' @ toy_digest default_algorithm ''Client 2'')
        @ toy_digest default_algorithm
            (toy_digest default_algorithm ''Client 3'' @ toy_digest default_algorithm ''Client 3''))"
    by (simp_all add: toy_digest_def)
  show ?thesis
    using round_trip_fails_for_third_of_three
            [where D = toy_digest and S = toy_stringify, OF wf s refl refl refl ne]
          wf s ne(1,2)
    by (simp add: c)
qed

text \<open>
  The same happens in the scenario of the repository's tests, a list of five clients: the
  proof of the fifth client does not verify.
\<close>

lemma round_trip_fails_for_fifth_of_five:
  "\<exists>tree path.
     computeMerkleTree toy_digest toy_stringify clients5 default_algorithm = Inr tree \<and>
     generateMerkleProofWithOrder
       (toy_digest default_algorithm (the (toy_stringify (clients5 ! 4)))) tree = Inr (Some path) \<and>
     verifyMerkleProofWithOrder toy_digest toy_stringify (clients5 ! 4) (last tree ! 0) path
       default_algorithm = Inr False"
  unfolding computeMerkleTree_clients5
  by (simp add: clients5_def client_def toy_digest_def generateMerkleProofWithOrder_def
      indexOf_def proof_loop.simps Let_def verifyMerkleProofWithOrder_def)

section \<open>Where the round trip holds\<close>

lemma proof_loop_unfold:
  "int i < int (length merkleTree) - 1 \<Longrightarrow>
   proof_loop merkleTree i index acc
     = proof_loop merkleTree (i + 1) (index div 2) (proof_step merkleTree i index acc)"
  by (subst proof_loop.simps) (simp add: Let_def proof_step_def)

lemma proof_loop_done:
  "\<not> int i < int (length merkleTree) - 1 \<Longrightarrow> proof_loop merkleTree i index acc = acc"
  by (subst proof_loop.simps) simp

lemma proof_step_acc: "proof_step merkleTree i index acc = acc @ proof_step merkleTree i index []"
  by (simp add: proof_step_def)

lemma proof_loop_acc:
  "proof_loop merkleTree i index acc = acc @ proof_loop merkleTree i index []"
proof (induction "length merkleTree - i" arbitrary: i index acc rule: less_induct)
  case less
  show ?case
  proof (cases "int i < int (length merkleTree) - 1")
    case True
    then have dec: "length merkleTree - (i + 1) < length merkleTree - i"
      by arith
    have "proof_loop merkleTree i index acc
            = proof_loop merkleTree (i + 1) (index div 2) (proof_step merkleTree i index acc)"
      by (rule proof_loop_unfold [OF True])
    also have "\<dots> = proof_step merkleTree i index acc
                         @ proof_loop merkleTree (i + 1) (index div 2) []"
      by (rule less [OF dec])
    also have "\<dots> = acc @ (proof_step merkleTree i index []
                         @ proof_loop merkleTree (i + 1) (index div 2) [])"
      by (subst proof_step_acc) simp
    also have "proof_step merkleTree i index [] @ proof_loop merkleTree (i + 1) (index div 2) []
                 = proof_loop merkleTree (i + 1) (index div 2) (proof_step merkleTree i index [])"
      by (rule less [OF dec, symmetric])
    also have "\<dots> = proof_loop merkleTree i index []"
      by (rule proof_loop_unfold [OF True, symmetric])
    finally show ?thesis .
  next
    case False
    then show ?thesis
      by (simp add: proof_loop_done)
  qed
qed

lemma proof_loop_shift:
  "proof_loop (level # merkleTree) (Suc i) index acc = proof_loop merkleTree i index acc"
proof (induction "length merkleTree - i" arbitrary: i index acc rule: less_induct)
  case less
  show ?case
  proof (cases "int i < int (length merkleTree) - 1")
    case True
    then have dec: "length merkleTree - (i + 1) < length merkleTree - i"
      by arith
    from True have True': "int (Suc i) < int (length (level # merkleTree)) - 1"
      by simp
    have "proof_step (level # merkleTree) (Suc i) index acc = proof_step merkleTree i index acc"
      by (simp add: proof_step_def)
    then have "proof_loop (level # merkleTree) (Suc i) index acc
            = proof_loop (level # merkleTree) (Suc (i + 1)) (index div 2)
                (proof_step merkleTree i index acc)"
      using proof_loop_unfold [OF True', of index acc] by simp
    also have "\<dots> = proof_loop merkleTree (i + 1) (index div 2)
                         (proof_step merkleTree i index acc)"
      by (rule less [OF dec])
    also have "\<dots> = proof_loop merkleTree i index acc"
      by (rule proof_loop_unfold [OF True, symmetric])
    finally show ?thesis .
  next
    case False
    then have "\<not> int (Suc i) < int (length (level # merkleTree)) - 1"
      by simp
    with False show ?thesis
      by (simp add: proof_loop_done)
  qed
qed

lemma next_level_nth:
  assumes "2 * k + 1 < length hashes"
  shows "next_level D algorithm hashes ! k = D algorithm (hashes ! (2 * k) @ hashes ! (2 * k + 1))"
proof -
  have k: "k < (length hashes + 1) div 2"
    using assms by arith
  then have "spec_pairs D algorithm hashes ! k
               = D algorithm (hashes ! (2 * k) @ hashes ! (2 * k + 1))"
    using assms by (simp add: spec_pairs_def)
  moreover have "k < length (spec_pairs D algorithm hashes)"
    using k by (simp add: spec_pairs_def)
  ultimately show ?thesis
    by (simp add: next_level_spec spec_next_level_def Let_def nth_append)
qed

text \<open>
  From an index whose sibling exists at its level, folding the collected path from the
  hash at that index gives the root. All levels above level 0 have even length (or are
  the root), so there the sibling always exists.
\<close>

lemma verify_from_index:
  assumes "idx < length hashes"
    and "length hashes = 1 \<or> odd idx \<or> idx + 1 < length hashes"
  shows "verify_loop D algorithm (hashes ! idx)
           (proof_loop (tree_levels D algorithm hashes) 0 (int idx) [])
         = last (tree_levels D algorithm hashes) ! 0"
  using assms
proof (induction "length hashes" arbitrary: hashes idx rule: less_induct)
  case less
  show ?case
  proof (cases "length hashes > 1")
    case False
    with less.prems(1) have "idx = 0" and "tree_levels D algorithm hashes = [hashes]"
      by (simp_all add: tree_levels_rec)
    then show ?thesis
      by (simp add: proof_loop.simps)
  next
    case True
    define nl where "nl = next_level D algorithm hashes"
    define k where "k = idx div 2"
    have tree: "tree_levels D algorithm hashes = hashes # tree_levels D algorithm nl"
      using True by (subst tree_levels_rec) (simp add: nl_def)
    have shorter: "length nl < length hashes"
      using True by (simp add: nl_def next_level_shorter)
    have len_nl: "length nl = (let m = (length hashes + 1) div 2
                              in if odd m \<and> length hashes > 2 then m + 1 else m)"
      by (simp add: nl_def length_next_level)
    have pair: "2 * k + 1 < length hashes"
      using less.prems True unfolding k_def by presburger
    have k_lt: "k < length nl"
      using pair unfolding len_nl Let_def by (auto split: if_splits)
    have good: "length nl = 1 \<or> odd k \<or> k + 1 < length nl"
    proof (cases "length hashes > 2")
      case True
      then have "even (length nl)"
        unfolding len_nl Let_def by auto
      with k_lt show ?thesis
        by (cases "odd k") (auto elim!: evenE)
    next
      case False
      with \<open>length hashes > 1\<close> have "length hashes = 2"
        by simp
      then show ?thesis
        by (simp add: len_nl)
    qed
    have IH: "verify_loop D algorithm (nl ! k)
                (proof_loop (tree_levels D algorithm nl) 0 (int k) [])
              = last (tree_levels D algorithm nl) ! 0"
      using shorter k_lt good by (rule less.hyps)
    have nlk: "nl ! k = D algorithm (hashes ! (2 * k) @ hashes ! (2 * k + 1))"
      unfolding nl_def using pair by (rule next_level_nth)
    have more: "int 0 < int (length (tree_levels D algorithm hashes)) - 1"
      by (simp add: tree tree_levels_nonempty)
    have half: "int idx div 2 = int k"
      by (simp add: k_def zdiv_int)
    show ?thesis
    proof (cases "even idx")
      case True
      then have idx: "idx = 2 * k"
        by (auto simp: k_def)
      have step: "proof_loop (tree_levels D algorithm hashes) 0 (int idx) []
                    = \<lparr>hash = hashes ! (idx + 1), isRight = True\<rparr>
                      # proof_loop (tree_levels D algorithm nl) 0 (int k) []"
      proof -
        have "int idx mod 2 = 0"
          using True by presburger
        moreover have "nat (int idx + 1) = idx + 1"
          by linarith
        moreover have "int idx + 1 < int (length hashes)"
          using pair idx by linarith
        ultimately have "proof_step (tree_levels D algorithm hashes) 0 (int idx) []
                = [\<lparr>hash = hashes ! (idx + 1), isRight = True\<rparr>]"
          by (simp add: proof_step_def tree)
        then show ?thesis
          using proof_loop_acc [of "tree_levels D algorithm nl" 0 "int k"
                  "[\<lparr>hash = hashes ! (idx + 1), isRight = True\<rparr>]"]
          by (simp add: proof_loop_unfold [OF more] half) (simp add: tree proof_loop_shift)
      qed
      have "verify_loop D algorithm (hashes ! idx)
              (proof_loop (tree_levels D algorithm hashes) 0 (int idx) [])
            = verify_loop D algorithm (nl ! k)
                (proof_loop (tree_levels D algorithm nl) 0 (int k) [])"
        unfolding step by (simp add: Let_def nlk idx)
      also note IH
      also have "last (tree_levels D algorithm nl) ! 0 = last (tree_levels D algorithm hashes) ! 0"
        by (simp add: tree tree_levels_nonempty)
      finally show ?thesis .
    next
      case False
      then have idx: "idx = 2 * k + 1"
        by (auto simp: k_def elim!: oddE)
      have step: "proof_loop (tree_levels D algorithm hashes) 0 (int idx) []
                    = \<lparr>hash = hashes ! (idx - 1), isRight = False\<rparr>
                      # proof_loop (tree_levels D algorithm nl) 0 (int k) []"
      proof -
        have "int idx mod 2 \<noteq> 0"
          using False by presburger
        moreover have "nat (int idx - 1) = idx - 1" and "0 \<le> int idx - 1"
          using idx by linarith+
        moreover have "int idx - 1 < int (length hashes)"
          using pair idx by linarith
        ultimately have "proof_step (tree_levels D algorithm hashes) 0 (int idx) []
                = [\<lparr>hash = hashes ! (idx - 1), isRight = False\<rparr>]"
          by (simp add: proof_step_def tree)
        then show ?thesis
          using proof_loop_acc [of "tree_levels D algorithm nl" 0 "int k"
                  "[\<lparr>hash = hashes ! (idx - 1), isRight = False\<rparr>]"]
          by (simp add: proof_loop_unfold [OF more] half) (simp add: tree proof_loop_shift)
      qed
      have "verify_loop D algorithm (hashes ! idx)
              (proof_loop (tree_levels D algorithm hashes) 0 (int idx) [])
            = verify_loop D algorithm (nl ! k)
                (proof_loop (tree_levels D algorithm nl) 0 (int k) [])"
        unfolding step by (simp add: Let_def nlk idx)
      also note IH
      also have "last (tree_levels D algorithm nl) ! 0 = last (tree_levels D algorithm hashes) ! 0"
        by (simp add: tree tree_levels_nonempty)
      finally show ?thesis .
    qed
  qed
qed

lemma first_occurrence:
  assumes "k < length xs"
  obtains f where "indexOf xs (xs ! k) = int f" and "f \<le> k" and "xs ! f = xs ! k"
proof -
  define P where "P = (\<lambda>y. y \<noteq> xs ! k)"
  define f where "f = length (takeWhile P xs)"
  have mem: "xs ! k \<in> set xs"
    using assms by (rule nth_mem)
  then have idx: "indexOf xs (xs ! k) = int f"
    by (simp add: indexOf_def indexOf_from_eq f_def P_def)
  have "f < length xs"
    using mem unfolding f_def P_def by (rule takeWhile_shorter)
  then have "\<not> P (xs ! f)"
    unfolding f_def by (rule nth_length_takeWhile)
  then have here: "xs ! f = xs ! k"
    by (simp add: P_def)
  have "f \<le> k"
  proof (rule ccontr)
    assume "\<not> f \<le> k"
    then have "k < length (takeWhile P xs)"
      by (simp add: f_def)
    then have "takeWhile P xs ! k = xs ! k" and "takeWhile P xs ! k \<in> set (takeWhile P xs)"
      by (rule takeWhile_nth, rule nth_mem)
    then have "P (xs ! k)"
      using set_takeWhileD [of "xs ! k" P xs] by simp
    then show False
      by (simp add: P_def)
  qed
  with idx here show ?thesis
    by (intro that)
qed

text \<open>
  The round trip holds for every client of a list of even length or of length 1, and for
  every client but the last of a list of odd length.
\<close>

lemma round_trip_holds:
  assumes "cl \<noteq> []" and "list_all is_client_entry cl" and "list_all (serializable S) cl"
    and "k < length cl"
    and "length cl = 1 \<or> even (length cl) \<or> k + 1 < length cl"
  shows "\<exists>tree path.
           computeMerkleTree D S cl default_algorithm = Inr tree \<and>
           generateMerkleProofWithOrder (D default_algorithm (the (S (cl ! k)))) tree
             = Inr (Some path) \<and>
           verifyMerkleProofWithOrder D S (cl ! k) (last tree ! 0) path default_algorithm
             = Inr True"
proof -
  define hashes where "hashes = map (\<lambda>c. D default_algorithm (the (S c))) cl"
  define tree where "tree = tree_levels D default_algorithm hashes"
  have built: "computeMerkleTree D S cl default_algorithm = Inr tree"
    using assms(1-3) by (simp add: computeMerkleTree_ok tree_def hashes_def)
  have len: "length hashes = length cl" and leaf: "hashes ! k = D default_algorithm (the (S (cl ! k)))"
    using assms(4) by (simp_all add: hashes_def)
  have k: "k < length hashes"
    using assms(4) len by simp
  from k obtain f where f: "indexOf hashes (hashes ! k) = int f" "f \<le> k" "hashes ! f = hashes ! k"
    by (rule first_occurrence)
  have f_lt: "f < length hashes"
    using f(2) k by simp
  have sibling: "length hashes = 1 \<or> odd f \<or> f + 1 < length hashes"
    using assms(5) f(2) f_lt unfolding len by presburger
  have root: "verify_loop D default_algorithm (hashes ! k)
                (proof_loop tree 0 (int f) []) = last tree ! 0"
    using verify_from_index [OF f_lt sibling, of D default_algorithm] by (simp add: tree_def f(3))
  have "hashes ! k \<in> set (tree ! 0)"
    using k by (simp add: tree_def tree_levels_nth0)
  then have path: "generateMerkleProofWithOrder (hashes ! k) tree
                     = Inr (Some (proof_loop tree 0 (int f) []))"
    using f(1) by (simp add: generateMerkleProofWithOrder_present tree_def tree_levels_nonempty
        tree_levels_nth0)
  obtain s where s: "S (cl ! k) = Some s"
    using assms(3,4) by (auto simp: list_all_length serializable_def)
  have "verifyMerkleProofWithOrder D S (cl ! k) (last tree ! 0) (proof_loop tree 0 (int f) [])
          default_algorithm = Inr True"
    using root by (simp add: verifyMerkleProofWithOrder_def s leaf)
  with built path show ?thesis
    by (auto simp: leaf)
qed

end
